theory Spec2Isabelle
  imports Main
begin

section \<open>Class hierarchies of autofactory\<close>

text \<open>
  The two mix-in classes of the repository, \<open>ModelBase\<close> (modelBase.py) and
  \<open>VersionedBase\<close> (versionedBase.py), search the hierarchy of their subclasses. A class
  object is modelled by what the searches read of it: its \<open>__name__\<close>, the value its label
  attribute evaluates to (the class's own assignment or the one it inherits), and the list
  \<open>__subclasses__()\<close> of its direct subclasses in declaration order. A hierarchy is a
  finite tree of such class objects, and a class is told from the others by this content,
  its name first.

  All four methods are class methods, so \<open>cls\<close> is a class and the test
  \<open>inspect.isclass(cls)\<close> always succeeds. What the methods \<open>print\<close> is left out.

  The two exceptions the code raises keep their Python names. The specification calls
  \<open>NotImplementedError\<close> "NotFound" and the \<open>TypeError\<close> of \<open>newFromVersion\<close>
  "AmbiguousHierarchy".
\<close>

datatype error = NotImplementedError | TypeError

subsection \<open>modelBase.py\<close>

text \<open>
  \<open>ModelBase\<close> itself declares \<open>modelStrings = None\<close>; a subclass assigns a list of
  strings. The test \<open>soughtModel in searchMe.modelStrings\<close> raises \<open>TypeError\<close> when the
  attribute is still \<open>None\<close>.
\<close>

datatype mclass =
  MClass (m_name: string) (modelStrings: "string list option") (m_subclasses: "mclass list")

text \<open>
  The inner function \<open>traverse\<close> of \<open>findModel\<close>, with its \<open>for sub in ...\<close> loop as the
  second function. Python's \<open>None\<close> result is \<open>Inr None\<close>; a class object is always truthy,
  so \<open>if possible\<close> tests for a result other than \<open>None\<close>.
\<close>

fun findModel_traverse :: "mclass \<Rightarrow> string \<Rightarrow> error + mclass option"
  and findModel_traverse_subs :: "mclass list \<Rightarrow> string \<Rightarrow> error + mclass option" where
  "findModel_traverse (MClass n ms subs) soughtModel =
     (case ms of
        None \<Rightarrow> Inl TypeError
      | Some strs \<Rightarrow>
          if soughtModel \<in> set strs then Inr (Some (MClass n ms subs))
          else findModel_traverse_subs subs soughtModel)"
| "findModel_traverse_subs [] soughtModel = Inr None"
| "findModel_traverse_subs (sub # rest) soughtModel =
     (case findModel_traverse sub soughtModel of
        Inl e \<Rightarrow> Inl e
      | Inr (Some possible) \<Rightarrow> Inr (Some possible)
      | Inr None \<Rightarrow> findModel_traverse_subs rest soughtModel)"

text \<open>
  \<open>findModel\<close>. The source tests \<open>len(cls.__subclasses__()) >= 1\<close> and then
  \<open>cls.__subclasses__() == []\<close>; the two tests are the two cases of the list.
\<close>

definition findModel :: "mclass \<Rightarrow> string \<Rightarrow> bool \<Rightarrow> bool \<Rightarrow> error + mclass" where
  "findModel cls observedModel returnBase returnLatest =
     (case modelStrings cls of
        None \<Rightarrow> Inl TypeError
      | Some strs \<Rightarrow>
          if observedModel \<in> set strs then Inr cls
          else
            (case m_subclasses cls of
               _ # _ \<Rightarrow>
                 (case findModel_traverse cls observedModel of
                    Inl e \<Rightarrow> Inl e
                  | Inr (Some possible) \<Rightarrow> Inr possible
                  | Inr None \<Rightarrow>
                      if returnBase then Inr cls else Inl NotImplementedError)
             | [] \<Rightarrow>
                 if returnBase \<or> returnLatest then Inr cls
                 else Inl NotImplementedError))"

text \<open>
  Vocabulary of the specification: the nodes of the subtree rooted at a class in pre-order
  (the class, then the subtree of each subclass in declaration order), and a node whose
  label list contains a label.
\<close>

fun m_preorder :: "mclass \<Rightarrow> mclass list" where
  "m_preorder (MClass n ms subs) = MClass n ms subs # concat (map m_preorder subs)"

definition has_label :: "string \<Rightarrow> mclass \<Rightarrow> bool" where
  "has_label l c = (case modelStrings c of None \<Rightarrow> False | Some strs \<Rightarrow> l \<in> set strs)"

definition labelled :: "mclass \<Rightarrow> bool" where
  "labelled c = (modelStrings c \<noteq> None)"

text \<open>The hierarchy of \<^verbatim>\<open>test_unit_modelBase.py\<close>.\<close>

definition ModelC :: mclass where
  "ModelC = MClass ''ModelC'' (Some [''C'', ''c'']) []"

definition ModelB :: mclass where
  "ModelB = MClass ''ModelB'' (Some [''B'', ''b'']) [ModelC]"

definition ModelA :: mclass where
  "ModelA = MClass ''ModelA'' (Some [''A'', ''a'']) [ModelB]"

text \<open>A root with two leaf subclasses that carry the same label.\<close>

definition M1 :: mclass where
  "M1 = MClass ''M1'' (Some [''x'']) []"

definition M2 :: mclass where
  "M2 = MClass ''M2'' (Some [''x'']) []"

definition M :: mclass where
  "M = MClass ''M'' (Some [''m'']) [M1, M2]"

subsection \<open>versionedBase.py\<close>

text \<open>
  \<open>VersionedBase\<close> declares \<open>versionString = None\<close>; a versioned subclass assigns a
  string. \<open>versionString\<close> of a class object is the value of the attribute lookup
  \<open>cls.versionString\<close>, compared with \<open>==\<close> against the sought version, which may itself
  be \<open>None\<close>.
\<close>

datatype vclass =
  VClass (v_name: string) (versionString: "string option") (v_subclasses: "vclass list")

text \<open>
  \<open>cls(*args, **kwargs)\<close> builds an instance of \<open>cls\<close> from the constructor arguments,
  which the search passes on untouched.
\<close>

datatype 'a py_instance = Instance (instance_class: vclass) (instance_args: 'a)

text \<open>
  The \<open>while scan:\<close> loop of \<open>newFromVersion\<close>; \<open>cls\<close> is the class the method was
  called on. The loop leaves through its \<open>else\<close> branch whenever \<open>scan\<close> does not have
  exactly one subclass.
\<close>

fun newFromVersion_scan ::
  "vclass \<Rightarrow> vclass \<Rightarrow> 'a \<Rightarrow> string option \<Rightarrow> bool \<Rightarrow> bool \<Rightarrow> error + 'a py_instance" where
  "newFromVersion_scan cls (VClass n vs subs) args version returnDefault returnLast =
     (if vs = version then Inr (Instance (VClass n vs subs) args)
      else
        (case subs of
           [sub] \<Rightarrow> newFromVersion_scan cls sub args version returnDefault returnLast
         | _ \<Rightarrow>
             if returnDefault then Inr (Instance cls args)
             else if returnLast then Inr (Instance (VClass n vs subs) args)
             else Inl NotImplementedError))"

definition newFromVersion ::
  "vclass \<Rightarrow> 'a \<Rightarrow> string option \<Rightarrow> bool \<Rightarrow> bool \<Rightarrow> error + 'a py_instance" where
  "newFromVersion cls args version returnDefault returnLast =
     (if versionString cls = version then Inr (Instance cls args)
      else
        (case v_subclasses cls of
           [sub] \<Rightarrow> newFromVersion_scan cls sub args version returnDefault returnLast
         | [] \<Rightarrow>
             if returnDefault then Inr (Instance cls args)
             else if returnLast then Inr (Instance cls args)
             else Inl NotImplementedError
         | _ \<Rightarrow> Inl TypeError))"

text \<open>
  The inner function \<open>traverse\<close> of \<open>findVersion\<close>; \<open>returnLatest\<close> is the variable of
  the enclosing call.
\<close>

fun findVersion_traverse :: "bool \<Rightarrow> vclass \<Rightarrow> string option \<Rightarrow> vclass option" where
  "findVersion_traverse returnLatest (VClass n vs subs) soughtVersion =
     (if soughtVersion = vs then Some (VClass n vs subs)
      else
        (case subs of
           sub # _ \<Rightarrow> findVersion_traverse returnLatest sub soughtVersion
         | [] \<Rightarrow> if returnLatest then Some (VClass n vs subs) else None))"

definition findVersion :: "vclass \<Rightarrow> string option \<Rightarrow> bool \<Rightarrow> bool \<Rightarrow> error + vclass" where
  "findVersion cls version returnBase returnLatest =
     (if version = versionString cls then Inr cls
      else if length (v_subclasses cls) > 0 then
        (case findVersion_traverse returnLatest cls version of
           Some possible \<Rightarrow> Inr possible
         | None \<Rightarrow> if returnBase then Inr cls else Inl NotImplementedError)
      else if returnBase \<or> returnLatest then Inr cls
      else Inl NotImplementedError)"

text \<open>
  \<open>findPreviousVersion\<close> reads only \<open>cls.__base__\<close> and the bases above it. The argument
  \<open>bases\<close> is that chain, nearest base first, as far as the bases have the attribute
  \<open>versionString\<close> (\<open>VersionedBase\<close> is the last one; its own base \<open>object\<close> has no such
  attribute). In \<open>climb base ancestors\<close> the list \<open>ancestors\<close> is the chain above \<open>base\<close>:
  \<open>hasattr(parent, "versionString")\<close> holds exactly when it is not empty. A call that
  finds nothing falls off the end of the function and returns \<open>None\<close>.
\<close>

fun climb :: "vclass \<Rightarrow> vclass list \<Rightarrow> string option \<Rightarrow> vclass option" where
  "climb base ancestors soughtVersion =
     (if versionString base = soughtVersion then Some base
      else
        (case ancestors of
           parent # higher \<Rightarrow> climb parent higher soughtVersion
         | [] \<Rightarrow> None))"

definition findPreviousVersion :: "vclass list \<Rightarrow> string option \<Rightarrow> vclass option" where
  "findPreviousVersion bases previous =
     (case bases of
        base # ancestors \<Rightarrow> climb base ancestors previous
      | [] \<Rightarrow> None)"

text \<open>
  The class reached from a class by a path of subclass positions, with its chain of
  bases: each step down adds the class left behind as the nearest base.
\<close>

fun class_at :: "vclass list \<Rightarrow> vclass \<Rightarrow> nat list \<Rightarrow> (vclass \<times> vclass list) option" where
  "class_at bases c [] = Some (c, bases)"
| "class_at bases c (i # path) =
     (if i < length (v_subclasses c) then class_at (c # bases) (v_subclasses c ! i) path
      else None)"

text \<open>
  Class statements and the class objects they create. A class body either assigns
  \<open>versionString\<close> or leaves it out; attribute lookup then finds the value of the nearest
  base that assigned it.
\<close>

datatype 'a class_attr = NotAssigned | Assigned 'a

datatype classdef =
  ClassDef (def_name: string) (def_versionString: "string option class_attr")
    (def_subclasses: "classdef list")

fun class_object :: "string option \<Rightarrow> classdef \<Rightarrow> vclass" where
  "class_object inherited (ClassDef n a defs) =
     (let v = (case a of NotAssigned \<Rightarrow> inherited | Assigned x \<Rightarrow> x)
      in VClass n v (map (class_object v) defs))"

text \<open>
  Vocabulary of the specification: the subtree of a class in pre-order, the path that
  follows the first subclass of every class, and a lineage, in which no class on that path
  has more than one subclass.
\<close>

fun v_preorder :: "vclass \<Rightarrow> vclass list" where
  "v_preorder (VClass n vs subs) = VClass n vs subs # concat (map v_preorder subs)"

fun first_child_path :: "vclass \<Rightarrow> vclass list" where
  "first_child_path (VClass n vs subs) =
     VClass n vs subs # (case subs of [] \<Rightarrow> [] | sub # _ \<Rightarrow> first_child_path sub)"

definition linear :: "vclass \<Rightarrow> bool" where
  "linear c = (\<forall>n\<in>set (first_child_path c). length (v_subclasses n) \<le> 1)"

text \<open>The hierarchy of \<^verbatim>\<open>test_unit_versionedbase.py\<close>, as class statements and as class
  objects.\<close>

definition Ver_defs :: classdef where
  "Ver_defs =
     ClassDef ''VersionedBase'' (Assigned None)
       [ClassDef ''Ver1'' (Assigned (Some ''1.0''))
          [ClassDef ''Ver2'' (Assigned (Some ''2.0''))
             [ClassDef ''Ver3'' (Assigned (Some ''3.0'')) []]]]"

definition Ver3 :: vclass where
  "Ver3 = VClass ''Ver3'' (Some ''3.0'') []"

definition Ver2 :: vclass where
  "Ver2 = VClass ''Ver2'' (Some ''2.0'') [Ver3]"

definition Ver1 :: vclass where
  "Ver1 = VClass ''Ver1'' (Some ''1.0'') [Ver2]"

definition VersionedBase :: vclass where
  "VersionedBase = VClass ''VersionedBase'' None [Ver1]"

text \<open>A lineage that forks below its second class.\<close>

definition Fork_C :: vclass where
  "Fork_C = VClass ''C'' (Some ''3.0'') []"

definition Fork_D :: vclass where
  "Fork_D = VClass ''D'' (Some ''3.1'') []"

definition Fork_B :: vclass where
  "Fork_B = VClass ''B'' (Some ''2.0'') [Fork_C, Fork_D]"

definition Fork_A :: vclass where
  "Fork_A = VClass ''A'' (Some ''1.0'') [Fork_B]"

text \<open>A tree whose first subclass is a leaf while the second one goes deeper.\<close>

definition Lop_D :: vclass where
  "Lop_D = VClass ''D'' (Some ''3.0'') []"

definition Lop_C :: vclass where
  "Lop_C = VClass ''C'' (Some ''2.1'') [Lop_D]"

definition Lop_B :: vclass where
  "Lop_B = VClass ''B'' (Some ''2.0'') []"

definition Lop_A :: vclass where
  "Lop_A = VClass ''A'' (Some ''1.0'') [Lop_B, Lop_C]"



section \<open>Properties of findModel\<close>

lemma find_app:
  "find P (xs @ ys) = (case find P xs of None \<Rightarrow> find P ys | Some x \<Rightarrow> Some x)"
  by (induction xs) auto

lemma find_first: "(\<forall>n\<in>set pre. \<not> P n) \<Longrightarrow> P m \<Longrightarrow> find P (pre @ m # post) = Some m"
  by (induction pre) auto

lemma find_Some_holds: "find P xs = Some m \<Longrightarrow> P m \<and> m \<in> set xs"
  by (induction xs) (auto split: if_splits)

lemma find_None_none: "find P xs = None \<longleftrightarrow> (\<forall>n\<in>set xs. \<not> P n)"
  by (induction xs) auto

text \<open>
  On a subtree all of whose classes carry a label list, \<open>traverse\<close> raises nothing and
  returns the first class of the pre-order that has the sought label.
\<close>

lemma findModel_traverse_find:
  "(\<forall>n\<in>set (m_preorder c). labelled n) \<Longrightarrow>
     findModel_traverse c l = Inr (find (has_label l) (m_preorder c))"
  "(\<forall>n\<in>set (concat (map m_preorder cs)). labelled n) \<Longrightarrow>
     findModel_traverse_subs cs l = Inr (find (has_label l) (concat (map m_preorder cs)))"
proof (induction c l and cs l rule: findModel_traverse_findModel_traverse_subs.induct)
  case (1 n ms subs soughtModel)
  then show ?case by (auto simp: labelled_def has_label_def)
next
  case (2 soughtModel)
  then show ?case by simp
next
  case (3 sub rest soughtModel)
  then show ?case by (auto simp: find_app split: option.splits)
qed

lemma findModel_find:
  assumes "\<forall>n\<in>set (m_preorder start). labelled n"
  shows "findModel start l rb rl =
           (case find (has_label l) (m_preorder start) of
              Some m \<Rightarrow> Inr m
            | None \<Rightarrow>
                if rb \<or> (rl \<and> m_subclasses start = []) then Inr start
                else Inl NotImplementedError)"
proof (cases start)
  case (MClass n ms subs)
  with assms obtain strs where ms: "ms = Some strs"
    by (auto simp: labelled_def)
  show ?thesis
  proof (cases "l \<in> set strs")
    case True
    then show ?thesis using MClass ms by (simp add: findModel_def has_label_def)
  next
    case False
    show ?thesis
    proof (cases subs)
      case Nil
      then show ?thesis using MClass ms False by (simp add: findModel_def has_label_def)
    next
      case (Cons s ss)
      have "findModel_traverse start l = Inr (find (has_label l) (m_preorder start))"
        using assms by (rule findModel_traverse_find(1))
      then show ?thesis using MClass ms False Cons
        by (auto simp add: findModel_def has_label_def split: option.splits)
    qed
  qed
qed

lemma m_preorder_ModelA: "m_preorder ModelA = [ModelA, ModelB, ModelC]"
  by (simp add: ModelA_def ModelB_def ModelC_def)

lemma labelled_ModelA: "\<forall>n\<in>set (m_preorder ModelA). labelled n"
  by (simp add: m_preorder_ModelA) (simp add: labelled_def ModelA_def ModelB_def ModelC_def)

lemma m_preorder_M: "m_preorder M = [M, M1, M2]"
  by (simp add: M_def M1_def M2_def)

lemma labelled_M: "\<forall>n\<in>set (m_preorder M). labelled n"
  by (simp add: m_preorder_M) (simp add: labelled_def M_def M1_def M2_def)

text \<open>
  C3. On a hierarchy whose classes all carry a label list, \<open>findModel\<close> returns a class
  that has the sought label exactly when the subtree of the start class (the start class
  included) holds one; the class returned is then the first one in the pre-order of the
  subtree, subclasses in declaration order. For the root \<open>M\<close> with the leaves \<open>M1\<close> and
  \<open>M2\<close>, both labelled "x", the result is \<open>M1\<close> and not \<open>M2\<close>.
\<close>

theorem findModel_first_in_preorder:
  assumes "\<forall>n\<in>set (m_preorder start). labelled n"
  shows "((\<exists>r. findModel start l rb rl = Inr r \<and> has_label l r) \<longleftrightarrow>
            (\<exists>n\<in>set (m_preorder start). has_label l n))
       \<and> (\<forall>pre m post.
            m_preorder start = pre @ m # post \<and> (\<forall>n\<in>set pre. \<not> has_label l n) \<and> has_label l m
            \<longrightarrow> findModel start l rb rl = Inr m)
       \<and> findModel M ''x'' rb rl = Inr M1
       \<and> findModel M ''x'' rb rl \<noteq> Inr M2"
proof (intro conjI allI impI)
  note eq = findModel_find [OF assms, of l rb rl]
  show "(\<exists>r. findModel start l rb rl = Inr r \<and> has_label l r) \<longleftrightarrow>
          (\<exists>n\<in>set (m_preorder start). has_label l n)"
  proof (cases "find (has_label l) (m_preorder start)")
    case None
    then have none: "\<forall>n\<in>set (m_preorder start). \<not> has_label l n"
      by (simp add: find_None_none)
    have "start \<in> set (m_preorder start)" by (cases start) simp
    with none have "\<not> has_label l start" by blast
    with eq None none show ?thesis by (auto split: if_splits)
  next
    case (Some m)
    then have "has_label l m \<and> m \<in> set (m_preorder start)"
      by (rule find_Some_holds)
    with eq Some show ?thesis by auto
  qed
next
  fix pre m post
  assume "m_preorder start = pre @ m # post \<and> (\<forall>n\<in>set pre. \<not> has_label l n) \<and> has_label l m"
  then have "find (has_label l) (m_preorder start) = Some m"
    by (simp add: find_first)
  then show "findModel start l rb rl = Inr m"
    using findModel_find [OF assms, of l rb rl] by simp
next
  have "find (has_label ''x'') (m_preorder M) = Some M1"
    by (simp add: m_preorder_M) (simp add: has_label_def M_def M1_def)
  then have M1: "findModel M ''x'' rb rl = Inr M1"
    using findModel_find [OF labelled_M, of "''x''" rb rl] by simp
  then show "findModel M ''x'' rb rl = Inr M1" .
  from M1 show "findModel M ''x'' rb rl \<noteq> Inr M2"
    by (simp add: M1_def M2_def)
qed

theorem findModel_first_in_preorder_witness:
  "m_preorder ModelA = [ModelA, ModelB] @ ModelC # []
   \<and> \<not> has_label ''c'' ModelA \<and> \<not> has_label ''c'' ModelB \<and> has_label ''c'' ModelC
   \<and> findModel ModelA ''c'' False False = Inr ModelC"
proof -
  have pre: "m_preorder ModelA = [ModelA, ModelB] @ ModelC # []"
    by (simp add: m_preorder_ModelA)
  have no: "\<not> has_label ''c'' ModelA" "\<not> has_label ''c'' ModelB"
    by (simp_all add: has_label_def ModelA_def ModelB_def)
  have yes: "has_label ''c'' ModelC"
    by (simp add: has_label_def ModelC_def)
  from no have before: "\<forall>n\<in>set [ModelA, ModelB]. \<not> has_label ''c'' n" by simp
  from findModel_first_in_preorder [OF labelled_ModelA, of "''c''" False False] pre before yes
  have "findModel ModelA ''c'' False False = Inr ModelC" by blast
  with pre no yes show ?thesis by blast
qed

text \<open>
  C7. When no class of the start class's subtree has the sought label (all of them
  carrying a label list), \<open>findModel\<close> without fallback flags fails with
  \<open>NotImplementedError\<close>, and with \<open>returnBase\<close> it returns the start class itself.
\<close>

theorem findModel_no_match:
  assumes "\<forall>n\<in>set (m_preorder start). labelled n"
    and "\<forall>n\<in>set (m_preorder start). \<not> has_label l n"
  shows "findModel start l False False = Inl NotImplementedError
       \<and> findModel start l True rl = Inr start"
proof -
  from assms(2) have "find (has_label l) (m_preorder start) = None"
    by (simp add: find_None_none)
  then show ?thesis
    by (simp add: findModel_find [OF assms(1)])
qed

lemma no_D_in_ModelA: "\<forall>n\<in>set (m_preorder ModelA). \<not> has_label ''D'' n"
  by (simp add: m_preorder_ModelA) (simp add: has_label_def ModelA_def ModelB_def ModelC_def)

theorem findModel_no_match_witness:
  "findModel ModelA ''D'' False False = Inl NotImplementedError
   \<and> findModel ModelA ''D'' True False = Inr ModelA"
  using findModel_no_match [OF labelled_ModelA no_D_in_ModelA, of False] by simp

text \<open>
  C2, as the code has it. With no match in the subtree, \<open>returnLatest\<close> stands in for
  \<open>returnBase\<close> only when the start class has no subclasses: either flag then returns the
  start class. When the start class has subclasses, \<open>returnBase\<close> returns the start class
  and \<open>returnLatest\<close> is not consulted: without \<open>returnBase\<close> the call fails with
  \<open>NotImplementedError\<close> whether \<open>returnLatest\<close> is set or not.
\<close>

theorem findModel_returnLatest_leaf_only:
  assumes "\<forall>n\<in>set (m_preorder start). labelled n"
    and "\<forall>n\<in>set (m_preorder start). \<not> has_label l n"
  shows "(m_subclasses start = [] \<longrightarrow>
            findModel start l False True = Inr start \<and> findModel start l True False = Inr start)
       \<and> (m_subclasses start \<noteq> [] \<longrightarrow>
            findModel start l True rl = Inr start
            \<and> findModel start l False rl = Inl NotImplementedError)"
proof -
  from assms(2) have "find (has_label l) (m_preorder start) = None"
    by (simp add: find_None_none)
  then show ?thesis
    by (simp add: findModel_find [OF assms(1)])
qed

theorem findModel_returnLatest_leaf_only_witness:
  "m_subclasses ModelA \<noteq> []
   \<and> findModel ModelA ''D'' True True = Inr ModelA
   \<and> findModel ModelA ''D'' False True = Inl NotImplementedError"
proof -
  have "m_subclasses ModelA \<noteq> []" by (simp add: ModelA_def)
  with findModel_returnLatest_leaf_only [OF labelled_ModelA no_D_in_ModelA, of True]
  show ?thesis by simp
qed

text \<open>
  The claim as the specification states it fails on the test hierarchy: \<open>ModelA\<close> has a
  subclass and no class is labelled "D"; \<open>returnBase\<close> returns \<open>ModelA\<close>, \<open>returnLatest\<close>
  raises.
\<close>

theorem findModel_returnLatest_counterexample:
  "findModel ModelA ''D'' True False = Inr ModelA
   \<and> findModel ModelA ''D'' False True = Inl NotImplementedError
   \<and> findModel ModelA ''D'' False True \<noteq> findModel ModelA ''D'' True False"
  by (simp add: findModel_def ModelA_def ModelB_def ModelC_def)

section \<open>Properties of newFromVersion\<close>

lemma first_child_path_hd: "first_child_path c \<noteq> [] \<and> hd (first_child_path c) = c"
  by (cases c) simp

lemma start_on_first_child_path: "c \<in> set (first_child_path c)"
  by (cases c) simp

text \<open>
  On a lineage without the sought version the loop runs to the last class and leaves
  through its fallback branch.
\<close>

lemma newFromVersion_scan_lineage:
  assumes "\<forall>n\<in>set (first_child_path scan). length (v_subclasses n) \<le> 1 \<and> versionString n \<noteq> version"
  shows "newFromVersion_scan cls scan args version rd rl =
           (if rd then Inr (Instance cls args)
            else if rl then Inr (Instance (last (first_child_path scan)) args)
            else Inl NotImplementedError)"
  using assms
proof (induction cls scan args version rd rl rule: newFromVersion_scan.induct)
  case (1 cls n vs subs args version returnDefault returnLast)
  show ?case
  proof (cases subs)
    case Nil
    with "1.prems" show ?thesis by simp
  next
    case (Cons sub rest)
    with "1.prems" have rest: "rest = []" by simp
    from "1.prems" Cons have vs: "vs \<noteq> version" by simp
    from "1.prems" Cons
    have "\<forall>n\<in>set (first_child_path sub). length (v_subclasses n) \<le> 1 \<and> versionString n \<noteq> version"
      by simp
    with "1.IH" [OF vs Cons rest]
    have "newFromVersion_scan cls sub args version returnDefault returnLast =
            (if returnDefault then Inr (Instance cls args)
             else if returnLast then Inr (Instance (last (first_child_path sub)) args)
             else Inl NotImplementedError)"
      by simp
    with Cons rest vs show ?thesis
      using first_child_path_hd [of sub] by simp
  qed
qed

lemma first_child_path_Ver1: "first_child_path Ver1 = [Ver1, Ver2, Ver3]"
  by (simp add: Ver1_def Ver2_def Ver3_def)

lemma linear_Ver1: "linear Ver1"
  by (simp add: linear_def first_child_path_Ver1) (simp add: Ver1_def Ver2_def Ver3_def)

lemma no_4_0_in_Ver1: "\<forall>n\<in>set (first_child_path Ver1). versionString n \<noteq> Some ''4.0''"
  by (simp add: first_child_path_Ver1) (simp add: Ver1_def Ver2_def Ver3_def)




text \<open>
  In a lineage the loop walks past every class that does not carry the sought version and
  instantiates the first class of the path that does.
\<close>

lemma newFromVersion_scan_finds:
  assumes "first_child_path scan = pre @ m # post"
    and "\<forall>n\<in>set pre. length (v_subclasses n) \<le> 1 \<and> versionString n \<noteq> version"
    and "versionString m = version"
  shows "newFromVersion_scan cls scan args version rd rl = Inr (Instance m args)"
  using assms
proof (induction cls scan args version rd rl arbitrary: pre rule: newFromVersion_scan.induct)
  case (1 cls n vs subs args version returnDefault returnLast)
  show ?case
  proof (cases pre)
    case Nil
    with "1.prems"(1) have "m = VClass n vs subs" by simp
    with "1.prems"(3) show ?thesis by simp
  next
    case (Cons p pre')
    with "1.prems"(1) have p: "p = VClass n vs subs"
      and tl: "(case subs of [] \<Rightarrow> [] | sub # _ \<Rightarrow> first_child_path sub) = pre' @ m # post"
      by simp_all
    from "1.prems"(2) Cons p have vs: "vs \<noteq> version" and len: "length subs \<le> 1"
      by simp_all
    from tl obtain sub rest where subs: "subs = sub # rest"
      by (cases subs) auto
    with len have rest: "rest = []" by simp
    from tl subs have path: "first_child_path sub = pre' @ m # post" by simp
    from "1.prems"(2) Cons
    have pre': "\<forall>n\<in>set pre'. length (v_subclasses n) \<le> 1 \<and> versionString n \<noteq> version"
      by simp
    have "newFromVersion_scan cls sub args version returnDefault returnLast =
            Inr (Instance m args)"
      by (rule "1.IH" [OF vs subs rest path pre' "1.prems"(3)])
    with vs subs rest show ?thesis by simp
  qed
qed

text \<open>
  C5. In a lineage, \<open>newFromVersion\<close> returns the instance that the constructor of the
  first class carrying the requested version builds from the arguments of the call,
  however many classes without that version lie between the start class and it. In the
  lineage \<open>Ver1\<close>, \<open>Ver2\<close>, \<open>Ver3\<close> with the versions "1.0", "2.0" and "3.0",
  \<open>newFromVersion\<close> called on \<open>Ver1\<close> for version "2.0" returns an instance of \<open>Ver2\<close>.
\<close>

theorem newFromVersion_matching_class:
  "(linear start \<and> first_child_path start = pre @ m # post
      \<and> (\<forall>n\<in>set pre. versionString n \<noteq> version) \<and> versionString m = version
    \<longrightarrow> newFromVersion start args version rd rl = Inr (Instance m args))
   \<and> first_child_path Ver1 = [Ver1, Ver2, Ver3]
   \<and> map versionString [Ver1, Ver2, Ver3] = [Some ''1.0'', Some ''2.0'', Some ''3.0'']
   \<and> newFromVersion Ver1 args (Some ''2.0'') rd rl = Inr (Instance Ver2 args)"
proof (intro conjI impI)
  assume a: "linear start \<and> first_child_path start = pre @ m # post
      \<and> (\<forall>n\<in>set pre. versionString n \<noteq> version) \<and> versionString m = version"
  then have path: "first_child_path start = pre @ m # post"
    and m: "versionString m = version" by simp_all
  from a have pre: "\<forall>n\<in>set pre. length (v_subclasses n) \<le> 1 \<and> versionString n \<noteq> version"
    by (auto simp: linear_def)
  show "newFromVersion start args version rd rl = Inr (Instance m args)"
  proof (cases pre)
    case Nil
    with path have "m = start"
      using first_child_path_hd [of start] by simp
    with m show ?thesis by (simp add: newFromVersion_def)
  next
    case (Cons p pre')
    with path have p: "p = start"
      using first_child_path_hd [of start] by simp
    with pre Cons have vs: "versionString start \<noteq> version"
      and len: "length (v_subclasses start) \<le> 1" by simp_all
    obtain n v subs where start: "start = VClass n v subs" by (cases start)
    with path Cons
    have tl: "(case subs of [] \<Rightarrow> [] | sub # _ \<Rightarrow> first_child_path sub) = pre' @ m # post"
      by simp
    then obtain sub rest where subs: "subs = sub # rest"
      by (cases subs) auto
    with len start have rest: "rest = []" by simp
    from tl subs have sub: "first_child_path sub = pre' @ m # post" by simp
    from pre Cons
    have "\<forall>n\<in>set pre'. length (v_subclasses n) \<le> 1 \<and> versionString n \<noteq> version"
      by simp
    with sub have "newFromVersion_scan start sub args version rd rl = Inr (Instance m args)"
      using m by (rule newFromVersion_scan_finds)
    with vs start subs rest show ?thesis by (simp add: newFromVersion_def)
  qed
next
  show "first_child_path Ver1 = [Ver1, Ver2, Ver3]" by (rule first_child_path_Ver1)
next
  show "map versionString [Ver1, Ver2, Ver3] = [Some ''1.0'', Some ''2.0'', Some ''3.0'']"
    by (simp add: Ver1_def Ver2_def Ver3_def)
next
  show "newFromVersion Ver1 args (Some ''2.0'') rd rl = Inr (Instance Ver2 args)"
    by (simp add: newFromVersion_def Ver1_def Ver2_def Ver3_def)
qed

text \<open>Asked for "3.0", the walk from \<open>Ver1\<close> passes \<open>Ver2\<close> and instantiates \<open>Ver3\<close>.\<close>

theorem newFromVersion_matching_class_witness:
  "linear Ver1 \<and> first_child_path Ver1 = [Ver1, Ver2] @ Ver3 # []
   \<and> versionString Ver1 \<noteq> Some ''3.0'' \<and> versionString Ver2 \<noteq> Some ''3.0''
   \<and> versionString Ver3 = Some ''3.0''
   \<and> newFromVersion Ver1 (7::nat) (Some ''3.0'') False False = Inr (Instance Ver3 7)"
proof -
  have path: "first_child_path Ver1 = [Ver1, Ver2] @ Ver3 # []"
    by (simp add: first_child_path_Ver1)
  have no: "versionString Ver1 \<noteq> Some ''3.0''" "versionString Ver2 \<noteq> Some ''3.0''"
    by (simp_all add: Ver1_def Ver2_def)
  have yes: "versionString Ver3 = Some ''3.0''" by (simp add: Ver3_def)
  from no have before: "\<forall>n\<in>set [Ver1, Ver2]. versionString n \<noteq> Some ''3.0''" by simp
  from newFromVersion_matching_class
    [of Ver1 "[Ver1, Ver2]" Ver3 "[]" "Some ''3.0''" "7::nat" False False]
    linear_Ver1 path before yes
  have "newFromVersion Ver1 (7::nat) (Some ''3.0'') False False = Inr (Instance Ver3 7)"
    by blast
  with linear_Ver1 path no yes show ?thesis by blast
qed

text \<open>
  C6. On a lineage none of whose classes carries the requested version,
  \<open>newFromVersion\<close> fails with \<open>NotImplementedError\<close> when neither flag is set, returns
  an instance of the start class when \<open>returnDefault\<close> is set, and returns an instance of
  the last class of the lineage when only \<open>returnLast\<close> is set.
\<close>

theorem newFromVersion_absent_version:
  assumes "linear start"
    and "\<forall>n\<in>set (first_child_path start). versionString n \<noteq> version"
  shows "newFromVersion start args version False False = Inl NotImplementedError
       \<and> newFromVersion start args version True rl = Inr (Instance start args)
       \<and> newFromVersion start args version False True =
           Inr (Instance (last (first_child_path start)) args)"
proof (cases start)
  case (VClass n vs subs)
  from assms(2) VClass have vs: "vs \<noteq> version" by simp
  show ?thesis
  proof (cases subs)
    case Nil
    with VClass vs show ?thesis by (simp add: newFromVersion_def)
  next
    case (Cons sub rest)
    from assms(1) VClass Cons have rest: "rest = []"
      by (simp add: linear_def)
    from assms VClass Cons
    have "\<forall>n\<in>set (first_child_path sub). length (v_subclasses n) \<le> 1 \<and> versionString n \<noteq> version"
      by (simp add: linear_def)
    then have scan: "newFromVersion_scan start sub args version rd' rl' =
           (if rd' then Inr (Instance start args)
            else if rl' then Inr (Instance (last (first_child_path sub)) args)
            else Inl NotImplementedError)" for rd' rl'
      by (rule newFromVersion_scan_lineage)
    have "last (first_child_path start) = last (first_child_path sub)"
      using VClass Cons first_child_path_hd [of sub] by simp
    with scan VClass Cons rest vs show ?thesis
      by (simp add: newFromVersion_def)
  qed
qed

theorem newFromVersion_absent_version_witness:
  "linear Ver1
   \<and> newFromVersion Ver1 () (Some ''4.0'') False False = Inl NotImplementedError
   \<and> newFromVersion Ver1 () (Some ''4.0'') True False = Inr (Instance Ver1 ())
   \<and> newFromVersion Ver1 () (Some ''4.0'') False True = Inr (Instance Ver3 ())"
  using newFromVersion_absent_version [OF linear_Ver1 no_4_0_in_Ver1, of "()" False] linear_Ver1
  by (simp add: first_child_path_Ver1)




section \<open>Properties of findVersion\<close>

text \<open>\<open>traverse\<close> only returns classes of the first-child path.\<close>

lemma findVersion_traverse_on_path:
  "findVersion_traverse rl c v = Some r \<Longrightarrow> r \<in> set (first_child_path c)"
proof (induction rl c v rule: findVersion_traverse.induct)
  case (1 returnLatest n vs subs soughtVersion)
  then show ?case by (cases subs) (auto split: if_splits)
qed

text \<open>
  When no class of the first-child path carries the sought version, \<open>traverse\<close> reaches
  the end of the path, and returns the class there if \<open>returnLatest\<close> is set.
\<close>

lemma findVersion_traverse_no_match:
  "\<forall>n\<in>set (first_child_path c). versionString n \<noteq> v \<Longrightarrow>
     findVersion_traverse rl c v = (if rl then Some (last (first_child_path c)) else None)"
proof (induction rl c v rule: findVersion_traverse.induct)
  case (1 returnLatest n vs subs soughtVersion)
  show ?case
  proof (cases subs)
    case Nil
    with "1.prems" show ?thesis by auto
  next
    case (Cons sub rest)
    from "1.prems" have vs: "soughtVersion \<noteq> vs" by auto
    from "1.prems" Cons
    have "\<forall>n\<in>set (first_child_path sub). versionString n \<noteq> soughtVersion" by simp
    with "1.IH" [OF vs Cons]
    have "findVersion_traverse returnLatest sub soughtVersion =
            (if returnLatest then Some (last (first_child_path sub)) else None)"
      by simp
    with Cons vs show ?thesis
      using first_child_path_hd [of sub] by simp
  qed
qed

lemma findVersion_on_path:
  assumes "findVersion start v rb rl = Inr r"
  shows "r \<in> set (first_child_path start)"
proof (cases "findVersion_traverse rl start v")
  case None
  with assms have "r = start"
    by (auto simp: findVersion_def split: if_splits)
  then show ?thesis by (simp add: start_on_first_child_path)
next
  case (Some p)
  then have "p \<in> set (first_child_path start)"
    by (rule findVersion_traverse_on_path)
  with assms Some show ?thesis
    by (auto simp: findVersion_def start_on_first_child_path split: if_splits)
qed

lemma findVersion_no_match:
  assumes "\<forall>n\<in>set (first_child_path start). versionString n \<noteq> v"
  shows "findVersion start v rb rl =
           (if rl then Inr (last (first_child_path start))
            else if rb then Inr start
            else Inl NotImplementedError)"
proof -
  have start: "v \<noteq> versionString start"
    using assms start_on_first_child_path [of start] by auto
  have leaf: "last (first_child_path start) = start" if "v_subclasses start = []"
    using that by (cases start) simp
  show ?thesis
    using start leaf findVersion_traverse_no_match [OF assms, of rl]
    by (auto simp: findVersion_def)
qed

lemma first_child_path_Fork_A: "first_child_path Fork_A = [Fork_A, Fork_B, Fork_C]"
  by (simp add: Fork_A_def Fork_B_def Fork_C_def)

lemma first_child_path_Lop_A: "first_child_path Lop_A = [Lop_A, Lop_B]"
  by (simp add: Lop_A_def Lop_B_def)

text \<open>
  C4. \<open>findVersion\<close> only descends through the first subclass of each class: whatever it
  returns lies on the first-child path from the start class. So when a class of the tree
  carries the sought version but no class of that path does, \<open>findVersion\<close> does not
  return that class: it fails with \<open>NotImplementedError\<close> or falls back to the start
  class or to the last class of the path.
\<close>

theorem findVersion_first_child_only:
  "(\<forall>r. findVersion start v rb rl = Inr r \<longrightarrow> r \<in> set (first_child_path start))
   \<and> (m \<in> set (v_preorder start) \<and> versionString m = v
        \<and> (\<forall>n\<in>set (first_child_path start). versionString n \<noteq> v)
      \<longrightarrow> findVersion start v rb rl \<noteq> Inr m
          \<and> (findVersion start v rb rl = Inl NotImplementedError
               \<or> findVersion start v rb rl = Inr start
               \<or> findVersion start v rb rl = Inr (last (first_child_path start))))"
proof (intro conjI allI impI)
  fix r
  assume "findVersion start v rb rl = Inr r"
  then show "r \<in> set (first_child_path start)" by (rule findVersion_on_path)
next
  assume a: "m \<in> set (v_preorder start) \<and> versionString m = v
    \<and> (\<forall>n\<in>set (first_child_path start). versionString n \<noteq> v)"
  then have "m \<notin> set (first_child_path start)" by blast
  then show "findVersion start v rb rl \<noteq> Inr m"
    using findVersion_on_path [of start v rb rl m] by blast
next
  assume a: "m \<in> set (v_preorder start) \<and> versionString m = v
    \<and> (\<forall>n\<in>set (first_child_path start). versionString n \<noteq> v)"
  then have "\<forall>n\<in>set (first_child_path start). versionString n \<noteq> v" by blast
  then show "findVersion start v rb rl = Inl NotImplementedError
      \<or> findVersion start v rb rl = Inr start
      \<or> findVersion start v rb rl = Inr (last (first_child_path start))"
    by (simp add: findVersion_no_match)
qed

theorem findVersion_first_child_only_witness:
  "Fork_D \<in> set (v_preorder Fork_A) \<and> versionString Fork_D = Some ''3.1''
   \<and> first_child_path Fork_A = [Fork_A, Fork_B, Fork_C]
   \<and> findVersion Fork_A (Some ''3.1'') False False \<noteq> Inr Fork_D
   \<and> findVersion Fork_A (Some ''3.1'') False False = Inl NotImplementedError"
proof -
  have m: "Fork_D \<in> set (v_preorder Fork_A)"
    by (simp add: Fork_A_def Fork_B_def Fork_C_def Fork_D_def)
  have v: "versionString Fork_D = Some ''3.1''"
    by (simp add: Fork_D_def)
  have none: "\<forall>n\<in>set (first_child_path Fork_A). versionString n \<noteq> Some ''3.1''"
    by (simp add: first_child_path_Fork_A) (simp add: Fork_A_def Fork_B_def Fork_C_def)
  from findVersion_first_child_only [of Fork_A "Some ''3.1''" False False Fork_D] m v none
  have ne: "findVersion Fork_A (Some ''3.1'') False False \<noteq> Inr Fork_D" by blast
  have "findVersion Fork_A (Some ''3.1'') False False = Inl NotImplementedError"
    by (simp add: findVersion_def Fork_A_def Fork_B_def Fork_C_def)
  with m v ne show ?thesis by (simp add: first_child_path_Fork_A)
qed

text \<open>
  C8. When no class on the first-child path from the start class carries the sought
  version: with \<open>returnLatest\<close> the result is the last class of that path; otherwise with
  \<open>returnBase\<close> it is the start class; with neither flag \<open>findVersion\<close> fails with
  \<open>NotImplementedError\<close>; and when the start class has no subclasses either flag alone
  returns the start class.
\<close>

theorem findVersion_fallbacks:
  assumes "\<forall>n\<in>set (first_child_path start). versionString n \<noteq> v"
  shows "findVersion start v rb True = Inr (last (first_child_path start))
       \<and> findVersion start v True False = Inr start
       \<and> findVersion start v False False = Inl NotImplementedError
       \<and> (v_subclasses start = [] \<longrightarrow>
            findVersion start v False True = Inr start
            \<and> findVersion start v True False = Inr start)"
proof -
  have "last (first_child_path start) = start" if "v_subclasses start = []"
    using that by (cases start) simp
  then show ?thesis
    by (simp add: findVersion_no_match [OF assms])
qed

text \<open>
  In \<open>Lop_A\<close> the first-child path ends at the leaf \<open>Lop_B\<close>, one step below the start
  class, while \<open>Lop_D\<close> lies two steps below it.
\<close>

theorem findVersion_fallbacks_witness:
  "first_child_path Lop_A = [Lop_A, Lop_B]
   \<and> v_preorder Lop_A = [Lop_A, Lop_B, Lop_C, Lop_D]
   \<and> findVersion Lop_A (Some ''9.9'') False True = Inr Lop_B
   \<and> findVersion Lop_A (Some ''9.9'') True False = Inr Lop_A
   \<and> findVersion Lop_A (Some ''9.9'') False False = Inl NotImplementedError"
proof -
  have none: "\<forall>n\<in>set (first_child_path Lop_A). versionString n \<noteq> Some ''9.9''"
    by (simp add: first_child_path_Lop_A) (simp add: Lop_A_def Lop_B_def)
  have pre: "v_preorder Lop_A = [Lop_A, Lop_B, Lop_C, Lop_D]"
    by (simp add: Lop_A_def Lop_B_def Lop_C_def Lop_D_def)
  from findVersion_fallbacks [OF none, of False] pre show ?thesis
    by (simp add: first_child_path_Lop_A)
qed

section \<open>Properties of findPreviousVersion\<close>

lemma class_object_Ver_defs: "class_object None Ver_defs = VersionedBase"
  by (simp add: Ver_defs_def VersionedBase_def Ver1_def Ver2_def Ver3_def Let_def)

lemma climb_find:
  "climb base ancestors v = find (\<lambda>b. versionString b = v) (base # ancestors)"
  by (induction base ancestors v rule: climb.induct) (simp split: list.splits)

lemma findPreviousVersion_find:
  "findPreviousVersion bases v = find (\<lambda>b. versionString b = v) bases"
  by (cases bases) (simp_all add: findPreviousVersion_def climb_find del: climb.simps)

text \<open>
  C9. \<open>findPreviousVersion\<close> starts at the base of the class it is called on and climbs
  the chain of bases; it returns the first base that carries the sought version. In the
  lineage \<open>Ver1\<close>, \<open>Ver2\<close>, \<open>Ver3\<close> the bases of \<open>Ver3\<close> are \<open>Ver2\<close>, \<open>Ver1\<close> and
  \<open>VersionedBase\<close>, and the search for "2.0" returns \<open>Ver2\<close>. When no base carries the
  sought version the climb ends at the top of the chain and the result is \<open>None\<close>; no
  exception is raised (the result type has no error).
\<close>

theorem findPreviousVersion_climbs:
  "(\<forall>pre b post.
      bases = pre @ b # post \<and> (\<forall>a\<in>set pre. versionString a \<noteq> v) \<and> versionString b = v
      \<longrightarrow> findPreviousVersion bases v = Some b)
   \<and> ((\<forall>a\<in>set bases. versionString a \<noteq> v) \<longrightarrow> findPreviousVersion bases v = None)
   \<and> class_at [] VersionedBase [0, 0, 0] = Some (Ver3, [Ver2, Ver1, VersionedBase])
   \<and> findPreviousVersion [Ver2, Ver1, VersionedBase] (Some ''2.0'') = Some Ver2"
proof (intro conjI allI impI)
  fix pre b post
  assume "bases = pre @ b # post \<and> (\<forall>a\<in>set pre. versionString a \<noteq> v) \<and> versionString b = v"
  then show "findPreviousVersion bases v = Some b"
    by (simp add: findPreviousVersion_find find_first)
next
  assume "\<forall>a\<in>set bases. versionString a \<noteq> v"
  then show "findPreviousVersion bases v = None"
    by (simp add: findPreviousVersion_find find_None_none)
next
  show "class_at [] VersionedBase [0, 0, 0] = Some (Ver3, [Ver2, Ver1, VersionedBase])"
    by (simp add: VersionedBase_def Ver1_def Ver2_def Ver3_def)
next
  show "findPreviousVersion [Ver2, Ver1, VersionedBase] (Some ''2.0'') = Some Ver2"
    by (simp add: findPreviousVersion_def VersionedBase_def Ver1_def Ver2_def Ver3_def)
qed

theorem findPreviousVersion_climbs_witness:
  "findPreviousVersion [Ver2, Ver1, VersionedBase] (Some ''1.0'') = Some Ver1
   \<and> findPreviousVersion [Ver2, Ver1, VersionedBase] (Some ''4.0'') = None"
proof -
  have v: "versionString Ver2 \<noteq> Some ''1.0''" "versionString Ver1 = Some ''1.0''"
    "versionString Ver2 \<noteq> Some ''4.0''" "versionString Ver1 \<noteq> Some ''4.0''"
    "versionString VersionedBase \<noteq> Some ''4.0''"
    by (simp_all add: VersionedBase_def Ver1_def Ver2_def)
  have dec: "[Ver2, Ver1, VersionedBase] = [Ver2] @ Ver1 # [VersionedBase]" by simp
  from v have pre: "\<forall>a\<in>set [Ver2]. versionString a \<noteq> Some ''1.0''" by simp
  from v have none: "\<forall>a\<in>set [Ver2, Ver1, VersionedBase]. versionString a \<noteq> Some ''4.0''" by simp
  from findPreviousVersion_climbs [of "[Ver2, Ver1, VersionedBase]" "Some ''1.0''"] dec pre v(2)
  have found: "findPreviousVersion [Ver2, Ver1, VersionedBase] (Some ''1.0'') = Some Ver1" by blast
  from findPreviousVersion_climbs [of "[Ver2, Ver1, VersionedBase]" "Some ''4.0''"] none
  have "findPreviousVersion [Ver2, Ver1, VersionedBase] (Some ''4.0'') = None" by blast
  with found show ?thesis by simp
qed

end
